theory Spec2Isabelle
  imports Complex_Main "HOL-Library.AList"
begin

text \<open>
  A shallow embedding of the text analysis programs \<open>text_stats.py\<close> (reading, cleaning
  and counting) and \<open>generate_text.py\<close> (the generation of text by a random walk over
  word pairs), and the properties of their specification.
\<close>

section \<open>text\_stats.py: reading and cleaning text\<close>

text \<open>
  Strings are \<^typ>\<open>string\<close>, that is lists of 8-bit characters. The embedding covers ASCII
  text: \<open>str.isalpha\<close> and \<open>str.lower\<close> are modelled on the ASCII letters, and a
  character above 127 counts as a non-letter.
\<close>

definition isalpha :: "char \<Rightarrow> bool" where
  "isalpha c = ((65 \<le> (of_char c :: nat) \<and> (of_char c :: nat) \<le> 90)
              \<or> (97 \<le> (of_char c :: nat) \<and> (of_char c :: nat) \<le> 122))"

definition lower_char :: "char \<Rightarrow> char" where
  "lower_char c = (if 65 \<le> (of_char c :: nat) \<and> (of_char c :: nat) \<le> 90
                   then char_of ((of_char c :: nat) + 32) else c)"

definition lower :: "string \<Rightarrow> string" where
  "lower s = map lower_char s"

text \<open>\<open>sep.join(xs)\<close>.\<close>

fun join :: "string \<Rightarrow> string list \<Rightarrow> string" where
  "join sep [] = []"
| "join sep [x] = x"
| "join sep (x # y # ys) = x @ sep @ join sep (y # ys)"

text \<open>\<open>s.split(" ")\<close>: split at every single separator character; two separators in a
  row, or one at either end, give an empty string, and the empty string gives \<open>[""]\<close>.\<close>

fun split :: "char \<Rightarrow> string \<Rightarrow> string list" where
  "split sep [] = [[]]"
| "split sep (c # cs) =
     (if c = sep then [] # split sep cs
      else (c # hd (split sep cs)) # tl (split sep cs))"

text \<open>The argument of \<open>clean_text\<close> is a string or a list of strings.\<close>

datatype text_arg = Str string | Lines "string list"

text \<open>\<open>open_file\<close> returns the lines of the file, or prints a message and quits when the
  file cannot be read. The file system is a partial map from file names to lines.\<close>

type_synonym file_system = "string \<Rightarrow> string list option"

definition open_file :: "file_system \<Rightarrow> string \<Rightarrow> string list option" where
  "open_file fs filename = fs filename"

definition clean_text :: "text_arg \<Rightarrow> string list" where
  "clean_text text =
     (let text1 = (case text of Lines ls \<Rightarrow> join '' '' ls | Str s \<Rightarrow> s);
          text2 = filter (\<lambda>x. isalpha x \<or> x = CHR '' '') text1;
          text3 = lower text2;
          text4 = split (CHR '' '') text3
      in filter (\<lambda>x. x \<noteq> []) text4)"



section \<open>text\_stats.py: frequency tables\<close>

text \<open>
  A Python \<open>dict\<close> keeps its keys in insertion order, and the order is visible (sorting is
  stable, the candidates of the generator are listed in key order), so a dictionary is an
  association list with distinct keys. \<open>k in d\<close> is \<open>has_key\<close>, the assignment
  \<open>d[k] = v\<close> is \<^const>\<open>AList.update\<close> (a new key goes to the end, an old key keeps
  its place). Counts are natural numbers: they start at 1 and are only incremented.
\<close>

definition has_key :: "'k \<Rightarrow> ('k \<times> 'v) list \<Rightarrow> bool" where
  "has_key k d = (map_of d k \<noteq> None)"

text \<open>\<open>if k in d: d[k] += 1 else: d[k] = 1\<close>.\<close>

definition increment :: "'k \<Rightarrow> ('k \<times> nat) list \<Rightarrow> ('k \<times> nat) list" where
  "increment k d =
     (case map_of d k of
        Some c \<Rightarrow> AList.update k (c + 1) d
      | None \<Rightarrow> AList.update k 1 d)"

text \<open>\<open>dict(sorted(d.items(), key = lambda item: item[1], reverse=True))\<close>: a stable sort,
  descending by count; items of equal count keep their order.\<close>

definition sort_descending :: "('k \<times> nat) list \<Rightarrow> ('k \<times> nat) list" where
  "sort_descending d = sort_key (\<lambda>item. - int (snd item)) d"

text \<open>The parameter \<open>look_for\<close> is the string \<open>"all"\<close> or a list of words; \<open>word in look_for\<close>
  is the substring test on a string and membership on a list.\<close>

datatype look_for = LookStr string | LookList "string list"

fun startswith :: "string \<Rightarrow> string \<Rightarrow> bool" where
  "startswith s [] = True"
| "startswith [] (c # cs) = False"
| "startswith (x # xs) (c # cs) = (x = c \<and> startswith xs cs)"

fun contains :: "string \<Rightarrow> string \<Rightarrow> bool" where
  "contains [] w = (w = [])"
| "contains (c # cs) w = (startswith (c # cs) w \<or> contains cs w)"

definition looked_for :: "look_for \<Rightarrow> string \<Rightarrow> bool" where
  "looked_for lf word =
     (case lf of LookStr s \<Rightarrow> s = ''all'' \<or> contains s word
               | LookList l \<Rightarrow> word \<in> set l)"

text \<open>The result is \<open>(lettercount, wordcount, wordpaircount)\<close>, or without the letter table
  when \<open>letter_freq\<close> is false (the first component is then \<open>None\<close>).\<close>

definition get_frequencies ::
  "string list \<Rightarrow> look_for \<Rightarrow> bool \<Rightarrow>
   (char \<times> nat) list option \<times> (string \<times> nat) list \<times> ((string \<times> string) \<times> nat) list" where
  "get_frequencies words lf letter_freq =
     (let wordcount = sort_descending
            (fold (\<lambda>word d. if looked_for lf word then increment word d else d) words []);
          wordpaircount = sort_descending
            (fold (\<lambda>i d. if looked_for lf (words ! i)
                          then increment (words ! i, words ! (i + 1)) d else d)
               [0..<length words - 1] [])
      in if letter_freq
         then (Some (sort_descending (fold increment (concat words) [])), wordcount, wordpaircount)
         else (None, wordcount, wordpaircount))"

definition descending :: "('k \<times> nat) list \<Rightarrow> bool" where
  "descending d = sorted_wrt (\<lambda>a b. snd b \<le> snd a) d"


section \<open>generate\_text.py: the arguments\<close>

text \<open>
  \<open>int(s)\<close> on a string, base 10: surrounding whitespace is stripped, one sign may lead,
  then decimal digits, where single underscores may stand between digits. Anything else
  raises \<open>ValueError\<close> (\<open>None\<close>).
\<close>

definition isspace :: "char \<Rightarrow> bool" where
  "isspace c = ((of_char c :: nat) \<in> {9, 10, 11, 12, 13, 28, 29, 30, 31, 32})"

definition isdigit :: "char \<Rightarrow> bool" where
  "isdigit c = (48 \<le> (of_char c :: nat) \<and> (of_char c :: nat) \<le> 57)"

definition strip :: "string \<Rightarrow> string" where
  "strip s = rev (dropWhile isspace (rev (dropWhile isspace s)))"

fun digits_value :: "nat \<Rightarrow> string \<Rightarrow> nat option" where
  "digits_value acc [] = Some acc"
| "digits_value acc (c # cs) =
     (if isdigit c then digits_value (acc * 10 + ((of_char c :: nat) - 48)) cs
      else if c = CHR ''_'' \<and> cs \<noteq> [] \<and> isdigit (hd cs) then digits_value acc cs
      else None)"

definition py_int :: "string \<Rightarrow> int option" where
  "py_int s =
     (let t = strip s;
          negative = (t \<noteq> [] \<and> hd t = CHR ''-'');
          body = (if t \<noteq> [] \<and> (hd t = CHR ''-'' \<or> hd t = CHR ''+'') then tl t else t)
      in if body \<noteq> [] \<and> isdigit (hd body)
         then map_option (\<lambda>n. if negative then - int n else int n) (digits_value 0 body)
         else None)"

text \<open>The \<open>try\<close> block: \<open>sys.argv[1]\<close>, \<open>sys.argv[2].lower()\<close>, \<open>int(sys.argv[3])\<close>; any
  exception (a missing argument, a malformed number) leads to the usage message and
  \<open>quit()\<close>, here \<open>None\<close>.\<close>

definition process_input :: "string list \<Rightarrow> (string \<times> string \<times> int) option" where
  "process_input argv =
     (if length argv < 4 then None
      else case py_int (argv ! 3) of
             None \<Rightarrow> None
           | Some n_words \<Rightarrow> Some (argv ! 1, lower (argv ! 2), n_words))"


section \<open>generate\_text.py: the generation loop\<close>

record gen_state =
  current_word :: string
  generated_text :: "string list"
  word_count :: "(string \<times> nat) list"
  wordpair_count :: "((string \<times> string) \<times> nat) list"

datatype error = ValueError | KeyError

text \<open>The scan of the whole text for the pairs that start with the current word:
  \<open>for i in range(len(input_text)-1)\<close>.\<close>

definition scan_text ::
  "string list \<Rightarrow> string \<Rightarrow> ((string \<times> string) \<times> nat) list \<Rightarrow> ((string \<times> string) \<times> nat) list" where
  "scan_text input_text cw d =
     fold (\<lambda>i d. if input_text ! i = cw then increment (cw, input_text ! (i + 1)) d else d)
       [0..<length input_text - 1] d"

text \<open>The two guarded blocks at the head of the loop body.\<close>

definition build_statistics :: "string list \<Rightarrow> gen_state \<Rightarrow> gen_state" where
  "build_statistics input_text s =
     (let s1 = (if \<not> has_key (current_word s) (word_count s)
                then s\<lparr>wordpair_count := scan_text input_text (current_word s) (wordpair_count s)\<rparr>
                else s)
      in if \<not> has_key (current_word s1) (word_count s1)
         then s1\<lparr>word_count := AList.update (current_word s1)
                    (count_list input_text (current_word s1)) (word_count s1)\<rparr>
         else s1)"

definition candidates :: "gen_state \<Rightarrow> string list" where
  "candidates s =
     map snd (filter (\<lambda>x. fst x = current_word s) (map fst (wordpair_count s)))"

text \<open>\<open>weights = list(wordpair_count[(current_word, cand)] for cand in candidates)\<close>; a
  missing key would raise \<open>KeyError\<close> (\<open>None\<close>).\<close>

definition weights :: "gen_state \<Rightarrow> string list \<Rightarrow> nat list option" where
  "weights s cands =
     those (map (\<lambda>cand. map_of (wordpair_count s) (current_word s, cand)) cands)"

text \<open>
  NumPy's \<open>numpy.random.choice(a, size=None, replace=True, p=None)\<close>, in the call
  \<open>np.random.choice(candidates, 1, weights)[0]\<close> of the loop: the third positional
  argument is \<open>replace\<close>, so the list \<open>weights\<close> is bound to \<open>replace\<close> (read by its truth
  value: a list is true when it is not empty) and \<open>p\<close> keeps its default \<open>None\<close>. With
  \<open>size = 1\<close>: an empty population raises \<open>ValueError\<close>; with replacement the index is
  drawn uniformly from \<open>range(len(a))\<close>; without replacement the sample is the first element
  of a uniform permutation, which needs \<open>size \<le> len(a)\<close>.

  \<open>choice_probabilities\<close> is the distribution of the drawn element (each position of
  \<open>a\<close> with its probability); \<open>np_random_choice\<close> is the draw itself, where the random
  source supplies a number \<open>r\<close> and the drawn index is \<open>r mod len(a)\<close>.
\<close>

definition choice_probabilities :: "'a list \<Rightarrow> bool \<Rightarrow> error + ('a \<times> rat) list" where
  "choice_probabilities a replace =
     (if a = [] then Inl ValueError
      else if replace then Inr (map (\<lambda>x. (x, 1 / of_nat (length a))) a)
      else if 1 > length a then Inl ValueError
      else Inr (map (\<lambda>x. (x, 1 / of_nat (length a))) a))"

definition np_random_choice :: "nat \<Rightarrow> 'a list \<Rightarrow> bool \<Rightarrow> error + 'a" where
  "np_random_choice r a replace =
     (if a = [] then Inl ValueError
      else if replace then Inr (a ! (r mod length a))
      else if 1 > length a then Inl ValueError
      else Inr (a ! (r mod length a)))"

text \<open>One run of the loop body; \<open>r\<close> is what the random source gives for this draw.\<close>

definition loop_body :: "string list \<Rightarrow> nat \<Rightarrow> gen_state \<Rightarrow> error + gen_state" where
  "loop_body input_text r s =
     (let s1 = build_statistics input_text s;
          cands = candidates s1
      in case weights s1 cands of
           None \<Rightarrow> Inl KeyError
         | Some ws \<Rightarrow>
             (case np_random_choice r cands (ws \<noteq> []) of
                Inl e \<Rightarrow> Inl e
              | Inr w \<Rightarrow> Inr (s1\<lparr>current_word := w, generated_text := generated_text s1 @ [w]\<rparr>)))"

text \<open>The distribution of the word that the loop body appends.\<close>

definition next_word_probabilities :: "string list \<Rightarrow> gen_state \<Rightarrow> error + (string \<times> rat) list" where
  "next_word_probabilities input_text s =
     (let s1 = build_statistics input_text s;
          cands = candidates s1
      in case weights s1 cands of
           None \<Rightarrow> Inl KeyError
         | Some ws \<Rightarrow> choice_probabilities cands (ws \<noteq> []))"

text \<open>
  \<open>while len(generated_text) < n_words and time()-start_time < 60\<close>. The wall clock is
  an oracle: \<open>in_time k\<close> tells whether the check made when \<open>generated_text\<close> holds
  \<open>k\<close> words still reads less than 60 seconds (\<open>and\<close> reads the clock only when the
  length test holds). \<open>rnd k\<close> is the random number of the draw made at that length.
\<close>

function gen_loop ::
  "string list \<Rightarrow> int \<Rightarrow> (nat \<Rightarrow> bool) \<Rightarrow> (nat \<Rightarrow> nat) \<Rightarrow> gen_state \<Rightarrow> error + gen_state" where
  "gen_loop input_text n_words in_time rnd s =
     (if int (length (generated_text s)) < n_words \<and> in_time (length (generated_text s))
      then (case loop_body input_text (rnd (length (generated_text s))) s of
              Inl e \<Rightarrow> Inl e
            | Inr s' \<Rightarrow> gen_loop input_text n_words in_time rnd s')
      else Inr s)"
  by pat_completeness auto
termination
  by (relation "measure (\<lambda>(input_text, n_words, in_time, rnd, s).
                   nat (n_words - int (length (generated_text s))))")
     (auto simp: loop_body_def build_statistics_def Let_def
           split: option.splits sum.splits if_splits)

declare gen_loop.simps [simp del]

definition initial :: "string \<Rightarrow> gen_state" where
  "initial cw = \<lparr>current_word = cw, generated_text = [cw], word_count = [], wordpair_count = []\<rparr>"

text \<open>
  What a run ends with: the usage message and \<open>quit()\<close>; the file message and \<open>quit()\<close>;
  the message that the start word does not occur, and \<open>quit()\<close>; an exception out of the
  loop; or the printed text, with the flag telling whether the time-limit message was
  printed before it (\<open>late\<close>: the clock reads 60 seconds or more after the loop).
\<close>

datatype outcome =
    ArgumentError
  | FileReadError
  | UnknownSeedWord string
  | Crashed error
  | Generated bool "string list"

definition generate ::
  "string list \<Rightarrow> string \<Rightarrow> int \<Rightarrow> (nat \<Rightarrow> bool) \<Rightarrow> bool \<Rightarrow> (nat \<Rightarrow> nat) \<Rightarrow> outcome" where
  "generate input_text cw n_words in_time late rnd =
     (if cw \<notin> set input_text
      then UnknownSeedWord (''The word '' @ [CHR 0x22] @ cw @ [CHR 0x22] @ '' does not occur in the file.'')
      else case gen_loop input_text n_words in_time rnd (initial cw) of
             Inl e \<Rightarrow> Crashed e
           | Inr s \<Rightarrow> Generated late (generated_text s))"

definition main ::
  "string list \<Rightarrow> file_system \<Rightarrow> (nat \<Rightarrow> bool) \<Rightarrow> bool \<Rightarrow> (nat \<Rightarrow> nat) \<Rightarrow> outcome" where
  "main argv fs in_time late rnd =
     (case process_input argv of
        None \<Rightarrow> ArgumentError
      | Some (file_name, cw, n_words) \<Rightarrow>
          (case open_file fs file_name of
             None \<Rightarrow> FileReadError
           | Some lines \<Rightarrow> generate (clean_text (Lines lines)) cw n_words in_time late rnd))"

text \<open>\<open>b\<close> immediately follows \<open>a\<close> somewhere in the text.\<close>

definition follows :: "string list \<Rightarrow> string \<Rightarrow> string \<Rightarrow> bool" where
  "follows input_text a b = ((a, b) \<in> set (zip input_text (tl input_text)))"

text \<open>The sum of the recorded transition counts whose first component is \<open>w\<close>.\<close>

definition row_total :: "string \<Rightarrow> ((string \<times> string) \<times> nat) list \<Rightarrow> nat" where
  "row_total w d = sum_list (map snd (filter (\<lambda>e. fst (fst e) = w) d))"

text \<open>The example corpus of nine tokens.\<close>

definition corpus :: "string list" where
  "corpus = [''the'', ''cat'', ''sat'', ''on'', ''the'', ''mat'', ''the'', ''cat'', ''ran'']"

text \<open>
  The invariant of the generation loop: the generated text ends with the current word;
  every recorded pair has a positive count, occurs in the text, and starts with a visited
  word; every visited word has its number of occurrences as frequency and the number of
  its occurrences before the last position as the sum of its transition counts; every two
  neighbours of the generated text are a recorded pair.
\<close>

definition stats_inv :: "string list \<Rightarrow> gen_state \<Rightarrow> bool" where
  "stats_inv xs s \<longleftrightarrow>
     generated_text s \<noteq> [] \<and> last (generated_text s) = current_word s \<and>
     (\<forall>e \<in> set (wordpair_count s).
        0 < snd e \<and> follows xs (fst (fst e)) (snd (fst e)) \<and> has_key (fst (fst e)) (word_count s)) \<and>
     (\<forall>e \<in> set (word_count s).
        snd e = count_list xs (fst e) \<and>
        row_total (fst e) (wordpair_count s) = count_list (butlast xs) (fst e)) \<and>
     (\<forall>p \<in> set (zip (generated_text s) (tl (generated_text s))). has_key p (wordpair_count s))"


section \<open>Dictionaries\<close>

lemma has_key_iff: "has_key k d \<longleftrightarrow> k \<in> fst ` set d"
  by (simp add: has_key_def map_of_eq_None_iff)

lemma has_key_update: "has_key k (AList.update k' v d) \<longleftrightarrow> k = k' \<or> has_key k d"
  by (auto simp: has_key_def update_conv')

lemma has_key_entry: "has_key k d \<Longrightarrow> \<exists>v. map_of d k = Some v \<and> (k, v) \<in> set d"
  by (auto simp: has_key_def dest: map_of_SomeD)

lemma set_update_fresh: "\<not> has_key k d \<Longrightarrow> set (AList.update k v d) = insert (k, v) (set d)"
  by (induction d) (auto simp: has_key_def)

lemma increment_Nil: "increment k [] = [(k, 1)]"
  by (simp add: increment_def)

lemma increment_Cons:
  "increment k ((k', v) # d) = (if k' = k then (k, Suc v) # d else (k', v) # increment k d)"
  by (simp add: increment_def split: option.splits)

lemma has_key_increment: "has_key k (increment k' d) \<longleftrightarrow> k = k' \<or> has_key k d"
  by (auto simp: has_key_def increment_def update_conv' split: option.splits)

lemma map_of_increment_other: "k \<noteq> k' \<Longrightarrow> map_of (increment k' d) k = map_of d k"
  by (simp add: increment_def update_conv' split: option.splits)

lemma set_increment: "e \<in> set (increment k d) \<Longrightarrow> e \<in> set d \<or> (fst e = k \<and> 0 < snd e)"
  by (induction d) (auto simp: increment_Nil increment_Cons split: if_splits)

lemma row_total_increment:
  "row_total w (increment (a, b) d) = row_total w d + (if a = w then 1 else 0)"
  by (induction d) (auto simp: increment_Nil increment_Cons row_total_def)

lemma row_total_zero: "(\<And>e. e \<in> set d \<Longrightarrow> fst (fst e) \<noteq> w) \<Longrightarrow> row_total w d = 0"
  by (induction d) (auto simp: row_total_def)

section \<open>Counting occurrences and neighbours\<close>

lemma count_by_index: "length (filter (\<lambda>i. ys ! i = w) [0..<length ys]) = count_list ys w"
proof (induction ys rule: rev_induct)
  case Nil
  show ?case by simp
next
  case (snoc y ys)
  have "filter (\<lambda>i. (ys @ [y]) ! i = w) [0..<length ys] = filter (\<lambda>i. ys ! i = w) [0..<length ys]"
    by (rule filter_cong) (auto simp: nth_append)
  with snoc show ?case by simp
qed

lemma count_butlast_index:
  "length (filter (\<lambda>i. xs ! i = w) [0..<length xs - 1]) = count_list (butlast xs) w"
proof -
  have "filter (\<lambda>i. xs ! i = w) [0..<length xs - 1]
        = filter (\<lambda>i. butlast xs ! i = w) [0..<length (butlast xs)]"
    by (rule filter_cong) (auto simp: nth_butlast)
  then show ?thesis using count_by_index[of "butlast xs" w] by simp
qed

lemma count_butlast_le: "count_list (butlast xs) w \<le> count_list xs w"
  by (induction xs) auto

lemma follows_index: "Suc i < length xs \<Longrightarrow> follows xs (xs ! i) (xs ! Suc i)"
  unfolding follows_def in_set_zip by (rule exI[of _ i]) (simp add: nth_tl)

lemma follows_iff: "follows xs a b \<longleftrightarrow> (\<exists>i. Suc i < length xs \<and> xs ! i = a \<and> xs ! Suc i = b)"
proof
  assume "follows xs a b"
  then obtain n where "xs ! n = a" "tl xs ! n = b" "n < length (tl xs)"
    by (auto simp: follows_def in_set_zip)
  then show "\<exists>i. Suc i < length xs \<and> xs ! i = a \<and> xs ! Suc i = b"
    by (intro exI[of _ n]) (auto simp: nth_tl)
next
  assume "\<exists>i. Suc i < length xs \<and> xs ! i = a \<and> xs ! Suc i = b"
  then show "follows xs a b" using follows_index by blast
qed

lemma follows_butlast: "follows xs a b \<Longrightarrow> a \<in> set (butlast xs)"
proof -
  assume "follows xs a b"
  then obtain i where i: "Suc i < length xs" "xs ! i = a" by (auto simp: follows_iff)
  then have "i < length (butlast xs)" "butlast xs ! i = a" by (auto simp: nth_butlast)
  then show ?thesis by (metis nth_mem)
qed

section \<open>The scan of the text\<close>

lemma scan_fold_other:
  "w \<noteq> cw \<Longrightarrow>
   map_of (fold (\<lambda>i d. if xs ! i = cw then increment (cw, xs ! (i + 1)) d else d) js d) (w, x)
   = map_of d (w, x)"
  by (induction js arbitrary: d) (auto simp: map_of_increment_other)

lemma scan_fold_has_key:
  "has_key k d \<Longrightarrow>
   has_key k (fold (\<lambda>i d. if xs ! i = cw then increment (cw, xs ! (i + 1)) d else d) js d)"
  by (induction js arbitrary: d) (auto simp: has_key_increment)

lemma scan_fold_entries:
  "e \<in> set (fold (\<lambda>i d. if xs ! i = cw then increment (cw, xs ! (i + 1)) d else d) js d) \<Longrightarrow>
   e \<in> set d \<or> (0 < snd e \<and> (\<exists>j\<in>set js. xs ! j = cw \<and> fst e = (cw, xs ! (j + 1))))"
proof (induction js arbitrary: d)
  case Nil
  then show ?case by simp
next
  case (Cons j js)
  let ?d = "if xs ! j = cw then increment (cw, xs ! (j + 1)) d else d"
  from Cons.prems have "e \<in> set (fold (\<lambda>i d. if xs ! i = cw then increment (cw, xs ! (i + 1)) d else d) js ?d)"
    by simp
  from Cons.IH[OF this]
  consider "e \<in> set ?d" | "0 < snd e \<and> (\<exists>j\<in>set js. xs ! j = cw \<and> fst e = (cw, xs ! (j + 1)))"
    by blast
  then show ?case
  proof cases
    case 1
    then show ?thesis by (auto dest: set_increment split: if_splits)
  next
    case 2
    then show ?thesis by auto
  qed
qed

lemma scan_fold_row_total:
  "row_total w (fold (\<lambda>i d. if xs ! i = cw then increment (cw, xs ! (i + 1)) d else d) js d)
   = row_total w d + (if w = cw then length (filter (\<lambda>j. xs ! j = cw) js) else 0)"
  by (induction js arbitrary: d) (auto simp: row_total_increment)

lemma scan_fold_id:
  "(\<And>j. j \<in> set js \<Longrightarrow> xs ! j \<noteq> cw) \<Longrightarrow>
   fold (\<lambda>i d. if xs ! i = cw then increment (cw, xs ! (i + 1)) d else d) js d = d"
  by (induction js arbitrary: d) auto

lemma scan_text_other: "w \<noteq> cw \<Longrightarrow> map_of (scan_text xs cw d) (w, x) = map_of d (w, x)"
  unfolding scan_text_def by (rule scan_fold_other)

lemma scan_text_has_key: "has_key k d \<Longrightarrow> has_key k (scan_text xs cw d)"
  unfolding scan_text_def by (rule scan_fold_has_key)

lemma scan_text_entries:
  assumes "e \<in> set (scan_text xs cw d)"
  shows "e \<in> set d \<or> (0 < snd e \<and> fst (fst e) = cw \<and> follows xs cw (snd (fst e)))"
proof -
  from scan_fold_entries[OF assms[unfolded scan_text_def]]
  consider "e \<in> set d"
    | j where "0 < snd e" "j < length xs - 1" "xs ! j = cw" "fst e = (cw, xs ! (j + 1))"
    by auto
  then show ?thesis
  proof cases
    case 1
    then show ?thesis by simp
  next
    case 2
    from 2(2) have "follows xs (xs ! j) (xs ! Suc j)" by (intro follows_index) simp
    with 2 show ?thesis by simp
  qed
qed

lemma scan_text_row_total:
  "row_total w (scan_text xs cw d)
   = row_total w d + (if w = cw then count_list (butlast xs) cw else 0)"
  unfolding scan_text_def using count_butlast_index[of xs cw] by (simp add: scan_fold_row_total)

lemma scan_text_dead_end: "cw \<notin> set (butlast xs) \<Longrightarrow> scan_text xs cw d = d"
  unfolding scan_text_def
proof (rule scan_fold_id)
  fix j assume a: "cw \<notin> set (butlast xs)" "j \<in> set [0..<length xs - 1]"
  then have "j < length (butlast xs)" by simp
  then have "butlast xs ! j \<in> set (butlast xs)" by (rule nth_mem)
  with a show "xs ! j \<noteq> cw" by (auto simp: nth_butlast)
qed

section \<open>The loop body and the loop\<close>

lemma build_statistics_visited:
  "has_key (current_word s) (word_count s) \<Longrightarrow> build_statistics xs s = s"
  by (simp add: build_statistics_def)

lemma build_statistics_new:
  "\<not> has_key (current_word s) (word_count s) \<Longrightarrow>
   build_statistics xs s =
     s\<lparr>wordpair_count := scan_text xs (current_word s) (wordpair_count s),
       word_count := AList.update (current_word s) (count_list xs (current_word s)) (word_count s)\<rparr>"
  by (simp add: build_statistics_def Let_def)

lemma build_statistics_fields:
  "current_word (build_statistics xs s) = current_word s"
  "generated_text (build_statistics xs s) = generated_text s"
  by (simp_all add: build_statistics_def Let_def)

lemma build_statistics_marks: "has_key (current_word s) (word_count (build_statistics xs s))"
  by (cases "has_key (current_word s) (word_count s)")
     (simp_all add: build_statistics_visited build_statistics_new has_key_update)

lemma candidates_iff: "w \<in> set (candidates s) \<longleftrightarrow> has_key (current_word s, w) (wordpair_count s)"
  by (force simp: candidates_def has_key_iff)

lemma np_random_choice_mem: "np_random_choice r a b = Inr w \<Longrightarrow> w \<in> set a"
  by (auto simp: np_random_choice_def split: if_splits)

lemma np_random_choice_fails: "np_random_choice r a b = Inl e \<longleftrightarrow> choice_probabilities a b = Inl e"
  by (simp add: np_random_choice_def choice_probabilities_def)

lemma np_random_choice_support:
  "np_random_choice r a b = Inr w \<Longrightarrow>
   \<exists>ps. choice_probabilities a b = Inr ps \<and> w \<in> fst ` set ps"
  by (auto simp: np_random_choice_def choice_probabilities_def image_image split: if_splits)

lemma loop_body_Inr:
  assumes "loop_body xs r s = Inr s'"
  obtains w where "w \<in> set (candidates (build_statistics xs s))"
    and "s' = (build_statistics xs s)\<lparr>current_word := w, generated_text := generated_text s @ [w]\<rparr>"
  using assms
  by (auto simp: loop_body_def Let_def build_statistics_fields
           split: option.splits sum.splits dest: np_random_choice_mem)

lemma gen_loop_invariant:
  "gen_loop xs n in_time rnd s = Inr s' \<Longrightarrow> P s \<Longrightarrow>
   (\<And>s r s1. P s \<Longrightarrow> loop_body xs r s = Inr s1 \<Longrightarrow> P s1) \<Longrightarrow> P s'"
proof (induction xs n in_time rnd s rule: gen_loop.induct)
  case (1 xs n in_time rnd s)
  show ?case
  proof (cases "int (length (generated_text s)) < n \<and> in_time (length (generated_text s))")
    case True
    with "1.prems"(1) obtain s1
      where b: "loop_body xs (rnd (length (generated_text s))) s = Inr s1"
        and r: "gen_loop xs n in_time rnd s1 = Inr s'"
      by (subst (asm) gen_loop.simps) (auto split: sum.splits)
    have "P s1" using "1.prems"(2) b by (rule "1.prems"(3))
    then show ?thesis using "1.prems"(3) by (rule "1.IH"[OF True b r])
  next
    case False
    with "1.prems" show ?thesis by (subst (asm) gen_loop.simps) simp
  qed
qed

section \<open>The invariant holds throughout a run\<close>

lemma stats_inv_initial: "stats_inv xs (initial w)"
  by (simp add: stats_inv_def initial_def)

lemma stats_inv_build:
  assumes "stats_inv xs s"
  shows "stats_inv xs (build_statistics xs s)"
proof (cases "has_key (current_word s) (word_count s)")
  case True
  then show ?thesis using assms by (simp add: build_statistics_visited)
next
  case False
  let ?cw = "current_word s"
  let ?wpc = "scan_text xs ?cw (wordpair_count s)"
  let ?wc = "AList.update ?cw (count_list xs ?cw) (word_count s)"
  have eq: "build_statistics xs s = s\<lparr>wordpair_count := ?wpc, word_count := ?wc\<rparr>"
    using False by (rule build_statistics_new)
  from assms have gt: "generated_text s \<noteq> []" "last (generated_text s) = current_word s"
    and ents: "\<And>e. e \<in> set (wordpair_count s) \<Longrightarrow>
        0 < snd e \<and> follows xs (fst (fst e)) (snd (fst e)) \<and> has_key (fst (fst e)) (word_count s)"
    and wcs: "\<And>e. e \<in> set (word_count s) \<Longrightarrow>
        snd e = count_list xs (fst e) \<and>
        row_total (fst e) (wordpair_count s) = count_list (butlast xs) (fst e)"
    and adj: "\<And>p. p \<in> set (zip (generated_text s) (tl (generated_text s))) \<Longrightarrow>
        has_key p (wordpair_count s)"
    by (auto simp: stats_inv_def)
  have fresh: "row_total ?cw (wordpair_count s) = 0"
  proof (rule row_total_zero)
    fix e assume "e \<in> set (wordpair_count s)"
    with ents[of e] False show "fst (fst e) \<noteq> ?cw" by auto
  qed
  have 2: "0 < snd e \<and> follows xs (fst (fst e)) (snd (fst e)) \<and> has_key (fst (fst e)) ?wc"
    if "e \<in> set ?wpc" for e
    using scan_text_entries[OF that] ents[of e] by (auto simp: has_key_update)
  have 3: "snd e = count_list xs (fst e) \<and> row_total (fst e) ?wpc = count_list (butlast xs) (fst e)"
    if "e \<in> set ?wc" for e
  proof -
    from False have "set ?wc = insert (?cw, count_list xs ?cw) (set (word_count s))"
      by (rule set_update_fresh)
    with that consider "e = (?cw, count_list xs ?cw)" | "e \<in> set (word_count s)" by auto
    then show ?thesis
    proof cases
      case 1
      then show ?thesis by (simp add: scan_text_row_total fresh)
    next
      case 2
      then have "has_key (fst e) (word_count s)" by (auto simp: has_key_iff)
      with False have "fst e \<noteq> ?cw" by auto
      with wcs[OF 2] show ?thesis by (simp add: scan_text_row_total)
    qed
  qed
  have 4: "has_key p ?wpc" if "p \<in> set (zip (generated_text s) (tl (generated_text s)))" for p
    using adj[OF that] by (rule scan_text_has_key)
  show ?thesis
    unfolding eq stats_inv_def using gt 2 3 4 by simp
qed

lemma zip_tl_snoc: "gt \<noteq> [] \<Longrightarrow> zip (gt @ [w]) (tl (gt @ [w])) = zip gt (tl gt) @ [(last gt, w)]"
  by (induction gt) (auto simp: neq_Nil_conv)

lemma stats_inv_loop_body:
  assumes "stats_inv xs s" and "loop_body xs r s = Inr s'"
  shows "stats_inv xs s'"
proof -
  let ?s1 = "build_statistics xs s"
  from assms(2) obtain w where w: "w \<in> set (candidates ?s1)"
    and s': "s' = ?s1\<lparr>current_word := w, generated_text := generated_text s @ [w]\<rparr>"
    by (rule loop_body_Inr)
  have inv1: "stats_inv xs ?s1" using assms(1) by (rule stats_inv_build)
  then have gt: "generated_text s \<noteq> []" "last (generated_text s) = current_word s"
    and adj: "\<And>p. p \<in> set (zip (generated_text s) (tl (generated_text s))) \<Longrightarrow>
        has_key p (wordpair_count ?s1)"
    by (auto simp: stats_inv_def build_statistics_fields)
  from w have new: "has_key (current_word s, w) (wordpair_count ?s1)"
    by (simp add: candidates_iff build_statistics_fields)
  have "has_key p (wordpair_count ?s1)"
    if "p \<in> set (zip (generated_text s @ [w]) (tl (generated_text s @ [w])))" for p
    using that[unfolded zip_tl_snoc[OF gt(1)]] adj[of p] new gt(2) by auto
  with inv1 show ?thesis
    unfolding s' stats_inv_def by simp
qed

lemma gen_loop_stats_inv:
  assumes "gen_loop xs n in_time rnd (initial seed) = Inr s"
  shows "stats_inv xs s"
  using assms stats_inv_initial stats_inv_loop_body
  by (rule gen_loop_invariant[where P = "stats_inv xs"])

lemma dead_end_candidates:
  assumes "stats_inv xs s" and "current_word s \<notin> set (butlast xs)"
  shows "candidates (build_statistics xs s) = []"
proof (rule ccontr)
  let ?s1 = "build_statistics xs s"
  assume "candidates ?s1 \<noteq> []"
  then obtain w where "w \<in> set (candidates ?s1)" by (cases "candidates ?s1") auto
  then have "has_key (current_word s, w) (wordpair_count ?s1)"
    by (simp add: candidates_iff build_statistics_fields)
  then obtain v where "((current_word s, w), v) \<in> set (wordpair_count ?s1)"
    by (blast dest: has_key_entry)
  moreover have "stats_inv xs ?s1" using assms(1) by (rule stats_inv_build)
  ultimately have "follows xs (current_word s) w" by (force simp: stats_inv_def)
  then have "current_word s \<in> set (butlast xs)" by (rule follows_butlast)
  with assms(2) show False by simp
qed

lemma loop_body_dead_end:
  assumes "stats_inv xs s" and "current_word s \<notin> set (butlast xs)"
  shows "loop_body xs r s = Inl ValueError"
  using dead_end_candidates[OF assms]
  by (simp add: loop_body_def Let_def weights_def np_random_choice_def)

lemma descending_sort: "descending (sort_descending d)"
  unfolding descending_def sort_descending_def
  using sorted_sort_key[of "\<lambda>item. - int (snd item)" d] by (simp add: sorted_map)


lemma loop_body_keeps_visited:
  assumes "has_key w (word_count s)" and "loop_body xs r s = Inr s'"
  shows "has_key w (word_count s') \<and> map_of (word_count s') w = map_of (word_count s) w
         \<and> (\<forall>x. map_of (wordpair_count s') (w, x) = map_of (wordpair_count s) (w, x))"
proof -
  from assms(2) obtain v where
    s': "s' = (build_statistics xs s)\<lparr>current_word := v, generated_text := generated_text s @ [v]\<rparr>"
    by (rule loop_body_Inr)
  show ?thesis
  proof (cases "has_key (current_word s) (word_count s)")
    case True
    then show ?thesis using assms(1) by (simp add: s' build_statistics_visited)
  next
    case False
    with assms(1) have "w \<noteq> current_word s" by auto
    then show ?thesis using assms(1) False
      by (simp add: s' build_statistics_new scan_text_other update_conv' has_key_update)
  qed
qed

lemma loop_body_visited_unchanged:
  assumes "has_key (current_word s) (word_count s)" and "loop_body xs r s = Inr s'"
  shows "word_count s' = word_count s \<and> wordpair_count s' = wordpair_count s"
  using assms(2) assms(1) by (auto elim!: loop_body_Inr simp: build_statistics_visited)

section \<open>Properties of the tokenizer and of the frequency tables\<close>

lemma split_nonempty: "split sep s \<noteq> []"
  by (induction s) auto

lemma those_map_defined: "(\<And>x. x \<in> set xs \<Longrightarrow> f x \<noteq> None) \<Longrightarrow> those (map f xs) \<noteq> None"
  by (induction xs) (auto split: option.splits)

lemma weights_defined: "weights s (candidates s) \<noteq> None"
  unfolding weights_def by (rule those_map_defined) (simp add: candidates_iff has_key_def)

text \<open>
  Claim C2, as the code has it: \<open>clean_text\<close> maps the line \<open>The Cat, sat ON the-mat!\<close> to
  the five tokens \<open>the, cat, sat, on, themat\<close>. Punctuation and the hyphen are removed
  and case is folded; a removed character leaves no space behind, so the two words that
  the hyphen joined become one token.
\<close>

theorem clean_text_example:
  "clean_text (Lines [''The Cat, sat ON the-mat!'']) = [''the'', ''cat'', ''sat'', ''on'', ''themat'']
   \<and> clean_text (Str ''The Cat, sat ON the-mat!'') = [''the'', ''cat'', ''sat'', ''on'', ''themat'']"
  by (intro conjI; code_simp)

text \<open>
  The six tokens \<open>the, cat, sat, on, the, mat\<close> are not what \<open>clean_text\<close> returns for
  this line.
\<close>

theorem clean_text_example_counterexample:
  "clean_text (Lines [''The Cat, sat ON the-mat!''])
   \<noteq> [''the'', ''cat'', ''sat'', ''on'', ''the'', ''mat'']"
  by code_simp

text \<open>
  Claim C9: the tables that \<open>get_frequencies\<close> returns are sorted in descending order of
  count, whatever the words, the restriction and the letter flag; on the example corpus
  the word table is \<open>the\<close> (3), \<open>cat\<close> (2), then \<open>sat\<close>, \<open>on\<close>, \<open>mat\<close>, \<open>ran\<close> (1 each), and
  the pair \<open>(the, cat)\<close> has count 2.
\<close>

theorem get_frequencies_ranked:
  "(case get_frequencies words lf letter_freq of
      (lettercount, wordcount, wordpaircount) \<Rightarrow>
        (case lettercount of None \<Rightarrow> True | Some l \<Rightarrow> descending l)
        \<and> descending wordcount \<and> descending wordpaircount)
   \<and> fst (snd (get_frequencies corpus (LookStr ''all'') True))
       = [(''the'', 3), (''cat'', 2), (''sat'', 1), (''on'', 1), (''mat'', 1), (''ran'', 1)]
   \<and> map_of (snd (snd (get_frequencies corpus (LookStr ''all'') True))) (''the'', ''cat'') = Some 2"
proof (intro conjI)
  show "case get_frequencies words lf letter_freq of
      (lettercount, wordcount, wordpaircount) \<Rightarrow>
        (case lettercount of None \<Rightarrow> True | Some l \<Rightarrow> descending l)
        \<and> descending wordcount \<and> descending wordpaircount"
    by (simp add: get_frequencies_def Let_def descending_sort)
  show "fst (snd (get_frequencies corpus (LookStr ''all'') True))
       = [(''the'', 3), (''cat'', 2), (''sat'', 1), (''on'', 1), (''mat'', 1), (''ran'', 1)]"
    by code_simp
  show "map_of (snd (snd (get_frequencies corpus (LookStr ''all'') True))) (''the'', ''cat'') = Some 2"
    by code_simp
qed


section \<open>Properties of the generator\<close>

text \<open>
  Claim C1, evaluated on the code: on the example corpus with start word \<open>the\<close> the
  candidates of the first draw are \<open>cat\<close> and \<open>mat\<close> with the weights 2 and 1, and the
  frequency of \<open>the\<close> is 3; but the weights reach \<open>np.random.choice\<close> as its parameter
  \<open>replace\<close>, so the draw is uniform: \<open>cat\<close> and \<open>mat\<close> have probability 1/2 each, not
  2/3 and 1/3.
\<close>

theorem first_expansion_uniform:
  "candidates (build_statistics corpus (initial ''the'')) = [''cat'', ''mat'']
   \<and> weights (build_statistics corpus (initial ''the'')) [''cat'', ''mat''] = Some [2, 1]
   \<and> next_word_probabilities corpus (initial ''the'') = Inr [(''cat'', 1 / 2), (''mat'', 1 / 2)]
   \<and> map_of (word_count (build_statistics corpus (initial ''the''))) ''the'' = Some 3"
  by (intro conjI; code_simp)

text \<open>
  Claim C3, evaluated on the code: a length that is not a number ends the run with the
  usage message, but the lengths \<open>0\<close> and \<open>-3\<close> are accepted; the run then prints the
  start word as a generated text of one word.
\<close>

theorem nonpositive_length_accepted:
  "main [''generate_text.py'', ''f.txt'', ''The'', ''0'']
        (\<lambda>name. if name = ''f.txt'' then Some [''the cat sat'', ''on the mat''] else None)
        (\<lambda>k. True) False (\<lambda>k. k)
     = Generated False [''the'']
   \<and> main [''generate_text.py'', ''f.txt'', ''The'', ''-3'']
        (\<lambda>name. if name = ''f.txt'' then Some [''the cat sat'', ''on the mat''] else None)
        (\<lambda>k. True) False (\<lambda>k. k)
     = Generated False [''the'']
   \<and> main [''generate_text.py'', ''f.txt'', ''The'', ''many'']
        (\<lambda>name. if name = ''f.txt'' then Some [''the cat sat'', ''on the mat''] else None)
        (\<lambda>k. True) False (\<lambda>k. k)
     = ArgumentError"
  by (intro conjI; code_simp)

text \<open>
  Claim C4: for every text and every start word that does not occur in it, the run ends
  with the message that names the word; the loop is not entered, no dictionary is built
  and no text is generated.
\<close>

theorem unknown_seed_word:
  "cw \<notin> set input_text \<Longrightarrow>
   generate input_text cw n_words in_time late rnd
   = UnknownSeedWord (''The word '' @ [CHR 0x22] @ cw @ [CHR 0x22] @ '' does not occur in the file.'')"
  by (simp add: generate_def)

text \<open>The start word \<open>dog\<close> on the example corpus.\<close>

theorem unknown_seed_word_witness:
  "''dog'' \<notin> set corpus
   \<and> generate corpus ''dog'' 5 (\<lambda>k. True) False (\<lambda>k. k)
     = UnknownSeedWord (''The word '' @ [CHR 0x22] @ ''dog'' @ [CHR 0x22] @ '' does not occur in the file.'')"
proof -
  have h: "''dog'' \<notin> set corpus" by (simp add: corpus_def)
  show ?thesis
    using h unknown_seed_word[OF h, of 5 "\<lambda>k. True" False "\<lambda>k. k"] by simp
qed

text \<open>
  Claim C5: for every text and every word that occurs in it, the run with that start word
  and the length 1 gives exactly the one-word text of the start word; the loop body never
  runs.
\<close>

theorem target_length_one:
  "w \<in> set input_text \<Longrightarrow> generate input_text w 1 in_time late rnd = Generated late [w]"
  by (simp add: generate_def gen_loop.simps initial_def)

text \<open>The start word \<open>cat\<close> on the example corpus.\<close>

theorem target_length_one_witness:
  "''cat'' \<in> set corpus
   \<and> generate corpus ''cat'' 1 (\<lambda>k. True) False (\<lambda>k. k) = Generated False [''cat'']"
proof -
  have h: "''cat'' \<in> set corpus" by (simp add: corpus_def)
  show ?thesis
    using h target_length_one[OF h, of "\<lambda>k. True" False "\<lambda>k. k"] by simp
qed

text \<open>
  Claim C6: after an iteration in which a word is the current word, the word is a key of
  \<open>word_count\<close>, and whatever iterations follow (with the same current word or another),
  its frequency and every transition count whose first component is the word stay as
  that iteration left them.
\<close>

theorem statistics_built_once:
  assumes "loop_body input_text r s0 = Inr s1"
    and "gen_loop input_text n_words in_time rnd s1 = Inr s2"
  shows "has_key (current_word s0) (word_count s1)
         \<and> map_of (word_count s2) (current_word s0) = map_of (word_count s1) (current_word s0)
         \<and> (\<forall>x. map_of (wordpair_count s2) (current_word s0, x)
                 = map_of (wordpair_count s1) (current_word s0, x))"
proof -
  let ?w = "current_word s0"
  let ?P = "\<lambda>s. has_key ?w (word_count s)
      \<and> map_of (word_count s) ?w = map_of (word_count s1) ?w
      \<and> (\<forall>x. map_of (wordpair_count s) (?w, x) = map_of (wordpair_count s1) (?w, x))"
  have v: "has_key ?w (word_count s1)"
    using assms(1) by (auto elim!: loop_body_Inr simp: build_statistics_marks)
  have "?P s2"
    using assms(2)
  proof (rule gen_loop_invariant)
    show "?P s1" using v by simp
  next
    fix s r s'
    assume "?P s" and "loop_body input_text r s = Inr s'"
    then show "?P s'" using loop_body_keeps_visited[of ?w s input_text r s'] by simp
  qed
  with v show ?thesis by simp
qed

text \<open>
  A run on the example corpus that comes back to \<open>the\<close> twice after the first iteration.
\<close>

theorem statistics_built_once_witness:
  "loop_body corpus 1 (initial ''the'')
     = Inr \<lparr>current_word = ''mat'', generated_text = [''the'', ''mat''],
            word_count = [(''the'', 3)],
            wordpair_count = [((''the'', ''cat''), 2), ((''the'', ''mat''), 1)]\<rparr>
   \<and> gen_loop corpus 6 (\<lambda>k. True) (\<lambda>k. k)
        \<lparr>current_word = ''mat'', generated_text = [''the'', ''mat''],
         word_count = [(''the'', 3)],
         wordpair_count = [((''the'', ''cat''), 2), ((''the'', ''mat''), 1)]\<rparr>
     = Inr \<lparr>current_word = ''mat'',
            generated_text = [''the'', ''mat'', ''the'', ''mat'', ''the'', ''mat''],
            word_count = [(''the'', 3), (''mat'', 1)],
            wordpair_count = [((''the'', ''cat''), 2), ((''the'', ''mat''), 1),
                              ((''mat'', ''the''), 1)]\<rparr>
   \<and> map_of [(''the'', 3), (''mat'', 1 :: nat)] ''the'' = map_of [(''the'', 3)] ''the''
   \<and> (\<forall>x. map_of [((''the'', ''cat''), 2), ((''the'', ''mat''), 1), ((''mat'', ''the''), 1 :: nat)]
              (''the'', x)
          = map_of [((''the'', ''cat''), 2), ((''the'', ''mat''), 1)] (''the'', x))"
proof -
  let ?s1 = "\<lparr>current_word = ''mat'', generated_text = [''the'', ''mat''],
            word_count = [(''the'', 3)],
            wordpair_count = [((''the'', ''cat''), 2), ((''the'', ''mat''), 1)]\<rparr>"
  let ?s2 = "\<lparr>current_word = ''mat'',
            generated_text = [''the'', ''mat'', ''the'', ''mat'', ''the'', ''mat''],
            word_count = [(''the'', 3), (''mat'', 1)],
            wordpair_count = [((''the'', ''cat''), 2), ((''the'', ''mat''), 1),
                              ((''mat'', ''the''), 1)]\<rparr>"
  have h1: "loop_body corpus 1 (initial ''the'') = Inr ?s1" by code_simp
  have h2: "gen_loop corpus 6 (\<lambda>k. True) (\<lambda>k. k) ?s1 = Inr ?s2" by code_simp
  from statistics_built_once[OF h1 h2]
  have "map_of (word_count ?s2) ''the'' = map_of (word_count ?s1) ''the''"
    and "\<forall>x. map_of (wordpair_count ?s2) (''the'', x) = map_of (wordpair_count ?s1) (''the'', x)"
    by (simp_all add: initial_def)
  with h1 h2 show ?thesis by simp
qed

text \<open>
  Claim C7: in every state in which the loop ends, the frequency recorded for a visited
  word is the number of its occurrences in the text, and the sum of the transition counts
  whose first component is the word is at most that number.
\<close>

theorem word_count_is_total:
  assumes "gen_loop input_text n_words in_time rnd (initial seed) = Inr s"
    and "map_of (word_count s) w = Some c"
  shows "c = count_list input_text w \<and> row_total w (wordpair_count s) \<le> c"
proof -
  have "stats_inv input_text s" using assms(1) by (rule gen_loop_stats_inv)
  moreover have "(w, c) \<in> set (word_count s)" using assms(2) by (rule map_of_SomeD)
  ultimately have "c = count_list input_text w"
    and "row_total w (wordpair_count s) = count_list (butlast input_text) w"
    by (force simp: stats_inv_def)+
  then show ?thesis using count_butlast_le[of input_text w] by simp
qed

text \<open>
  A text that ends with a word which also occurs earlier: the frequency 2 of \<open>a\<close> is
  above the sum 1 of its transition counts.
\<close>

theorem word_count_is_total_witness:
  "gen_loop [''a'', ''b'', ''a''] 2 (\<lambda>k. True) (\<lambda>k. k) (initial ''a'')
     = Inr \<lparr>current_word = ''b'', generated_text = [''a'', ''b''],
            word_count = [(''a'', 2)], wordpair_count = [((''a'', ''b''), 1)]\<rparr>
   \<and> map_of [(''a'', 2 :: nat)] ''a'' = Some 2
   \<and> (2 :: nat) = count_list [''a'', ''b'', ''a''] ''a''
   \<and> row_total ''a'' [((''a'', ''b''), 1)] \<le> 2"
proof -
  let ?s = "\<lparr>current_word = ''b'', generated_text = [''a'', ''b''],
            word_count = [(''a'', 2)], wordpair_count = [((''a'', ''b''), 1)]\<rparr>"
  have h1: "gen_loop [''a'', ''b'', ''a''] 2 (\<lambda>k. True) (\<lambda>k. k) (initial ''a'') = Inr ?s"
    by code_simp
  have h2: "map_of (word_count ?s) ''a'' = Some 2" by simp
  from word_count_is_total[OF h1 h2]
  have "(2 :: nat) = count_list [''a'', ''b'', ''a''] ''a''"
    and "row_total ''a'' [((''a'', ''b''), 1)] \<le> 2"
    by simp_all
  with h1 show ?thesis by simp
qed

text \<open>
  Claim C8: in every state in which the loop ends, each word of the generated text after
  the first has a recorded, nonzero transition count from the word before it, and
  immediately follows that word somewhere in the text.
\<close>

theorem successor_was_recorded:
  assumes "gen_loop input_text n_words in_time rnd (initial seed) = Inr s"
    and "Suc i < length (generated_text s)"
  shows "(\<exists>c. map_of (wordpair_count s) (generated_text s ! i, generated_text s ! Suc i) = Some c \<and> 0 < c)
         \<and> follows input_text (generated_text s ! i) (generated_text s ! Suc i)"
proof -
  let ?g = "generated_text s"
  let ?p = "(?g ! i, ?g ! Suc i)"
  have inv: "stats_inv input_text s" using assms(1) by (rule gen_loop_stats_inv)
  have "?p \<in> set (zip ?g (tl ?g))"
    unfolding in_set_zip using assms(2) by (intro exI[of _ i]) (simp add: nth_tl)
  with inv have "has_key ?p (wordpair_count s)" by (simp add: stats_inv_def)
  then obtain c where c: "map_of (wordpair_count s) ?p = Some c" "(?p, c) \<in> set (wordpair_count s)"
    by (blast dest: has_key_entry)
  from inv c(2) have "0 < c \<and> follows input_text (?g ! i) (?g ! Suc i)"
    by (force simp: stats_inv_def)
  with c(1) show ?thesis by simp
qed

text \<open>The second and third word of a run of four words on the example corpus.\<close>

theorem successor_was_recorded_witness:
  "gen_loop corpus 4 (\<lambda>k. True) (\<lambda>k. 2 * k) (initial ''the'')
     = Inr \<lparr>current_word = ''on'', generated_text = [''the'', ''cat'', ''sat'', ''on''],
            word_count = [(''the'', 3), (''cat'', 2), (''sat'', 1)],
            wordpair_count = [((''the'', ''cat''), 2), ((''the'', ''mat''), 1),
                              ((''cat'', ''sat''), 1), ((''cat'', ''ran''), 1),
                              ((''sat'', ''on''), 1)]\<rparr>
   \<and> Suc 1 < length [''the'', ''cat'', ''sat'', ''on'']
   \<and> (\<exists>c. map_of [((''the'', ''cat''), 2), ((''the'', ''mat''), 1), ((''cat'', ''sat''), 1),
                   ((''cat'', ''ran''), 1), ((''sat'', ''on''), 1 :: nat)] (''cat'', ''sat'') = Some c
          \<and> 0 < c)
   \<and> follows corpus ''cat'' ''sat''"
proof -
  let ?s = "\<lparr>current_word = ''on'', generated_text = [''the'', ''cat'', ''sat'', ''on''],
            word_count = [(''the'', 3), (''cat'', 2), (''sat'', 1)],
            wordpair_count = [((''the'', ''cat''), 2), ((''the'', ''mat''), 1),
                              ((''cat'', ''sat''), 1), ((''cat'', ''ran''), 1),
                              ((''sat'', ''on''), 1)]\<rparr>"
  have h1: "gen_loop corpus 4 (\<lambda>k. True) (\<lambda>k. 2 * k) (initial ''the'') = Inr ?s"
    by code_simp
  have h2: "Suc 1 < length (generated_text ?s)" by simp
  from successor_was_recorded[OF h1 h2]
  have "follows corpus ''cat'' ''sat''" by simp
  with h1 show ?thesis by simp
qed

text \<open>
  Claim C10: when the loop has reached a state whose current word occurs nowhere in the
  text but at the last position, the length is not yet reached and the clock still allows
  an iteration, the candidate list and the weight list are both empty and the draw raises
  \<open>ValueError\<close>: the loop does not end with the text generated so far.
\<close>

theorem no_successor_draw_fails:
  assumes "gen_loop input_text m in_time0 rnd0 (initial seed) = Inr s"
    and "current_word s \<notin> set (butlast input_text)"
    and "int (length (generated_text s)) < n_words"
    and "in_time (length (generated_text s))"
  shows "candidates (build_statistics input_text s) = []
         \<and> weights (build_statistics input_text s) [] = Some []
         \<and> gen_loop input_text n_words in_time rnd s = Inl ValueError"
proof -
  have inv: "stats_inv input_text s" using assms(1) by (rule gen_loop_stats_inv)
  have "loop_body input_text (rnd (length (generated_text s))) s = Inl ValueError"
    using inv assms(2) by (rule loop_body_dead_end)
  then have "gen_loop input_text n_words in_time rnd s = Inl ValueError"
    using assms(3,4) by (subst gen_loop.simps) simp
  then show ?thesis
    using dead_end_candidates[OF inv assms(2)] by (simp add: weights_def)
qed

text \<open>On the example corpus, a run from \<open>cat\<close> that draws \<open>ran\<close>, the last token.\<close>

theorem no_successor_draw_fails_witness:
  "gen_loop corpus 2 (\<lambda>k. True) (\<lambda>k. 1) (initial ''cat'')
     = Inr \<lparr>current_word = ''ran'', generated_text = [''cat'', ''ran''],
            word_count = [(''cat'', 2)],
            wordpair_count = [((''cat'', ''sat''), 1), ((''cat'', ''ran''), 1)]\<rparr>
   \<and> ''ran'' \<notin> set (butlast corpus)
   \<and> int (length [''cat'', ''ran'']) < 5
   \<and> length [''cat'', ''ran''] < 10
   \<and> gen_loop corpus 5 (\<lambda>k. k < 10) (\<lambda>k. 1)
        \<lparr>current_word = ''ran'', generated_text = [''cat'', ''ran''],
         word_count = [(''cat'', 2)],
         wordpair_count = [((''cat'', ''sat''), 1), ((''cat'', ''ran''), 1)]\<rparr>
     = Inl ValueError
   \<and> generate corpus ''cat'' 5 (\<lambda>k. k < 10) False (\<lambda>k. 1) = Crashed ValueError"
proof -
  let ?s = "\<lparr>current_word = ''ran'', generated_text = [''cat'', ''ran''],
            word_count = [(''cat'', 2)],
            wordpair_count = [((''cat'', ''sat''), 1), ((''cat'', ''ran''), 1)]\<rparr>"
  have h1: "gen_loop corpus 2 (\<lambda>k. True) (\<lambda>k. 1) (initial ''cat'') = Inr ?s" by code_simp
  have h2: "current_word ?s \<notin> set (butlast corpus)" by (simp add: corpus_def)
  have h3: "int (length (generated_text ?s)) < 5" by simp
  have h4: "length (generated_text ?s) < 10" by simp
  have "gen_loop corpus 5 (\<lambda>k. k < 10) (\<lambda>k. 1) ?s = Inl ValueError"
    using no_successor_draw_fails[where in_time = "\<lambda>k. k < 10" and rnd = "\<lambda>k. 1", OF h1 h2 h3 h4]
    by simp
  moreover have "generate corpus ''cat'' 5 (\<lambda>k. k < 10) False (\<lambda>k. 1) = Crashed ValueError"
    by code_simp
  ultimately show ?thesis using h1 h2 by simp
qed

end
